theory Spec2Isabelle
  imports Main
begin

section \<open>The indexed d-ary min-heap (class MinIndexedDHeap)\<close>

text \<open>
  The TypeScript class keeps five mutable fields and a comparator. The three arrays are
  JavaScript arrays, which are objects: reading a property that was never written gives
  \<open>undefined\<close>, writing at any index succeeds, and only \<open>push\<close> and \<open>pop\<close>
  look at \<open>length\<close>. They are modelled as total maps, with \<open>None\<close> (for keys and
  positions) and \<open>Undefined\<close> (for values) standing for \<open>undefined\<close>.

  A key is a JavaScript number or \<open>undefined\<close>: the public methods are typed to take
  numbers, but \<open>poll\<close> passes \<open>heap[0]\<close> to \<open>deleteKey\<close>, and the helper methods
  index \<open>values\<close> and \<open>pm\<close> with whatever \<open>heap[position]\<close> holds. Numbers are
  modelled as unbounded integers; the degree passed to the constructor is an integer.

  The field \<open>values\<close> is called \<open>vals\<close> here, \<open>heap.length\<close> is \<open>heap_length\<close>
  and the method \<open>size\<close> is \<open>size_h\<close>. The comparator takes value slots, since the
  class calls it on whatever \<open>values[heap[position]]\<close> holds, and only its sign is used.

  An exception ends the call: the result \<open>Inl e\<close> carries no state. The loop of \<open>sink\<close>
  has no bound of its own, so \<open>sink\<close> and the methods that call it return an option,
  \<open>None\<close> meaning that the call does not return.
\<close>

datatype 'a slot = Undefined | Null | Val 'a

datatype error = VALUE_DOES_NOT_EXIST_ERROR | Error

type_synonym key = "int option"

record 'a MinIndexedDHeap =
  d :: int
  sz :: int
  vals :: "key \<Rightarrow> 'a slot"
  heap :: "int \<Rightarrow> key"
  heap_length :: int
  pm :: "key \<Rightarrow> int option"
  compare :: "'a slot \<Rightarrow> 'a slot \<Rightarrow> int"

text \<open>
  The constructor. \<open>compareFunction || utils.defaultCompare\<close>: the caller's comparator
  is taken as given here; the default comparator is \<open>defaultCompare\<close> below.
\<close>

definition constructor :: "int \<Rightarrow> ('a slot \<Rightarrow> 'a slot \<Rightarrow> int) \<Rightarrow> 'a MinIndexedDHeap" where
  "constructor degree compareFunction =
     \<lparr>d = max 2 degree, sz = 0, vals = (\<lambda>_. Undefined), heap = (\<lambda>_. None),
      heap_length = 0, pm = (\<lambda>_. None), compare = compareFunction\<rparr>"

text \<open>
  JavaScript's \<open><\<close> on value slots holding numbers: \<open>undefined\<close> converts to NaN, which
  makes every comparison false, and \<open>null\<close> converts to 0. \<open>a > b\<close> is \<open>js_less b a\<close>,
  and \<open>===\<close> on slots is equality.
\<close>

fun to_number :: "int slot \<Rightarrow> int option" where
  "to_number Undefined = None"
| "to_number Null = Some 0"
| "to_number (Val n) = Some n"

definition js_less :: "int slot \<Rightarrow> int slot \<Rightarrow> bool" where
  "js_less a b =
     (case (to_number a, to_number b) of (Some x, Some y) \<Rightarrow> x < y | _ \<Rightarrow> False)"

text \<open>
  Modelled from the spec: \<open>utils.defaultCompare\<close> is not among the sources. The spec says
  that absent a custom comparator, values are compared by their natural ascending order;
  on numbers that is \<open>a < b ? -1 : a === b ? 0 : 1\<close>.
\<close>

definition defaultCompare :: "int slot \<Rightarrow> int slot \<Rightarrow> int" where
  "defaultCompare a b = (if js_less a b then - 1 else if a = b then 0 else 1)"

text \<open>
  JavaScript's truthiness test \<open>!x\<close> on a value slot: \<open>undefined\<close> and \<open>null\<close> are
  falsy, and a payload is falsy when the payload type says so (\<open>0\<close> for numbers, the
  empty string, \<open>false\<close>). The payload's part is the parameter \<open>falsy\<close>.
\<close>

fun slot_falsy :: "('a \<Rightarrow> bool) \<Rightarrow> 'a slot \<Rightarrow> bool" where
  "slot_falsy falsy Undefined = True"
| "slot_falsy falsy Null = True"
| "slot_falsy falsy (Val v) = falsy v"

definition number_falsy :: "int \<Rightarrow> bool" where
  "number_falsy n = (n = 0)"

subsection \<open>Array primitives\<close>

definition heap_push :: "'a MinIndexedDHeap \<Rightarrow> key \<Rightarrow> 'a MinIndexedDHeap" where
  "heap_push st key =
     st\<lparr>heap := (heap st)(heap_length st := key), heap_length := heap_length st + 1\<rparr>"

definition heap_pop :: "'a MinIndexedDHeap \<Rightarrow> 'a MinIndexedDHeap" where
  "heap_pop st =
     (if heap_length st = 0 then st
      else st\<lparr>heap := (heap st)(heap_length st - 1 := None),
              heap_length := heap_length st - 1\<rparr>)"

definition heap_set :: "'a MinIndexedDHeap \<Rightarrow> int \<Rightarrow> key \<Rightarrow> 'a MinIndexedDHeap" where
  "heap_set st i k =
     st\<lparr>heap := (heap st)(i := k),
        heap_length := (if 0 \<le> i then max (heap_length st) (i + 1) else heap_length st)\<rparr>"

subsection \<open>Niceties, searching, helpers\<close>

definition size_h :: "'a MinIndexedDHeap \<Rightarrow> int" where
  "size_h st = sz st"

definition isEmpty :: "'a MinIndexedDHeap \<Rightarrow> bool" where
  "isEmpty st = (size_h st = 0)"

definition contains :: "'a MinIndexedDHeap \<Rightarrow> key \<Rightarrow> bool" where
  "contains st key = (pm st key \<noteq> None \<and> pm st key \<noteq> Some (- 1))"

text \<open>The loop variable \<open>i\<close> runs from 1 to \<open>d\<close> and is not used in the pushed value.\<close>

definition getChildrenPositions :: "'a MinIndexedDHeap \<Rightarrow> int \<Rightarrow> int list" where
  "getChildrenPositions st parentIndex = map (\<lambda>i. parentIndex * d st + 1) [1..d st]"

definition getParentPosition :: "'a MinIndexedDHeap \<Rightarrow> int \<Rightarrow> int" where
  "getParentPosition st childIndex = (childIndex - 1) div d st"

definition lessForPositions :: "'a MinIndexedDHeap \<Rightarrow> int \<Rightarrow> int \<Rightarrow> error + bool" where
  "lessForPositions st positionA positionB =
     (let keyA = heap st positionA;
          keyB = heap st positionB;
          valueA = vals st keyA;
          valueB = vals st keyB
      in if valueA = Null \<or> valueB = Null then Inl VALUE_DOES_NOT_EXIST_ERROR
         else Inr (compare st valueA valueB < 0))"

definition lessForValues :: "'a MinIndexedDHeap \<Rightarrow> 'a slot \<Rightarrow> 'a slot \<Rightarrow> bool" where
  "lessForValues st a b = (compare st a b < 0)"

definition swap :: "'a MinIndexedDHeap \<Rightarrow> int \<Rightarrow> int \<Rightarrow> 'a MinIndexedDHeap" where
  "swap st positionI positionJ =
     (let keyI = heap st positionI;
          keyJ = heap st positionJ;
          st1 = st\<lparr>pm := (pm st)(keyI := Some positionJ)\<rparr>;
          st2 = st1\<lparr>pm := (pm st1)(keyJ := Some positionI)\<rparr>;
          st3 = heap_set st2 positionI keyJ
      in heap_set st3 positionJ keyI)"

subsection \<open>The invariant engine\<close>

function swim :: "'a MinIndexedDHeap \<Rightarrow> int \<Rightarrow> error + 'a MinIndexedDHeap" where
  "swim st k =
     (if k > 0 then
        (case lessForPositions st k (getParentPosition st k) of
           Inl e \<Rightarrow> Inl e
         | Inr isLess \<Rightarrow>
             if isLess
             then swim (swap st k (getParentPosition st k)) (getParentPosition st k)
             else Inr st)
      else Inr st)"
  by pat_completeness auto


termination swim
proof (relation "measure (\<lambda>(st, k). nat k)")
  show "wf (measure (\<lambda>(st :: 'a MinIndexedDHeap, k). nat k))" by simp
next
  fix st :: "'a MinIndexedDHeap" and k :: int and x2 :: bool
  assume k: "0 < k"
  have "(k - 1) div d st < k"
  proof (cases "k = 1")
    case True
    then show ?thesis by simp
  next
    case False
    with k have "0 < k - 1" by simp
    then have "(k - 1) div d st \<le> k - 1" by (rule int_div_le_self)
    then show ?thesis by simp
  qed
  then show "((swap st k (getParentPosition st k), getParentPosition st k), (st, k))
             \<in> measure (\<lambda>(st, k). nat k)"
    using k by (simp add: getParentPosition_def)
qed

declare swim.simps [simp del]

text \<open>
  The \<open>for\<close> loop of \<open>sink\<close> over the children positions; the third argument is
  \<open>smallestChildPosition\<close>. The bounds test reads \<open>smallestChildPosition\<close>, as the
  source does, and the comparison is made whether or not the test holds.
\<close>

fun sink_for :: "'a MinIndexedDHeap \<Rightarrow> int list \<Rightarrow> int \<Rightarrow> error + int" where
  "sink_for st [] smallestChildPosition = Inr smallestChildPosition"
| "sink_for st (childPosition # rest) smallestChildPosition =
     (case lessForPositions st childPosition smallestChildPosition of
        Inl e \<Rightarrow> Inl e
      | Inr currentChildIsSmallerThanMin \<Rightarrow>
          sink_for st rest
            (if smallestChildPosition < size_h st \<and> currentChildIsSmallerThanMin
             then childPosition else smallestChildPosition))"

text \<open>
  The \<open>while (true)\<close> loop of \<open>sink\<close>. The constructor makes \<open>d\<close> at least 2, so the
  list of children positions is never empty in a constructed heap; the model gives no
  result for an empty list, where \<open>childrenPositions[0]\<close> would be \<open>undefined\<close>.
\<close>

partial_function (option) sink :: "'a MinIndexedDHeap \<Rightarrow> int \<Rightarrow> (error + 'a MinIndexedDHeap) option" where
  "sink st k =
     (case getChildrenPositions st k of
        [] \<Rightarrow> None
      | firstChild # _ \<Rightarrow>
          (case sink_for st (getChildrenPositions st k) firstChild of
             Inl e \<Rightarrow> Some (Inl e)
           | Inr smallestChildPosition \<Rightarrow>
               (case lessForPositions st k smallestChildPosition of
                  Inl e \<Rightarrow> Some (Inl e)
                | Inr elementIsLessThanChild \<Rightarrow>
                    if smallestChildPosition \<ge> size_h st \<or> elementIsLessThanChild
                    then Some (Inr st)
                    else sink (swap st k smallestChildPosition) smallestChildPosition)))"

subsection \<open>The public operations\<close>

definition add :: "'a MinIndexedDHeap \<Rightarrow> key \<Rightarrow> 'a \<Rightarrow> error + (bool \<times> 'a MinIndexedDHeap)" where
  "add st key v =
     (if contains st key then Inr (False, st)
      else
        let st1 = st\<lparr>vals := (vals st)(key := Val v)\<rparr>;
            st2 = heap_push st1 key;
            st3 = st2\<lparr>sz := sz st2 + 1\<rparr>;
            keyPosition = size_h st3 - 1;
            st4 = st3\<lparr>pm := (pm st3)(key := Some keyPosition)\<rparr>
        in case swim st4 keyPosition of
             Inl e \<Rightarrow> Inl e
           | Inr st5 \<Rightarrow> Inr (True, st5))"

definition peek :: "'a MinIndexedDHeap \<Rightarrow> 'a slot" where
  "peek st = (if isEmpty st then Null else vals st (heap st 0))"

definition valueOf :: "'a MinIndexedDHeap \<Rightarrow> key \<Rightarrow> 'a slot" where
  "valueOf st key = (if \<not> contains st key then Null else vals st key)"

text \<open>
  \<open>this.sink(position); this.swim(position); return r\<close>: the tail shared by the three
  update methods and \<open>deleteKey\<close>. \<open>finish\<close> is what the method does with the state
  after \<open>swim\<close>.
\<close>

definition sink_swim ::
  "'a MinIndexedDHeap \<Rightarrow> int \<Rightarrow> ('a MinIndexedDHeap \<Rightarrow> 'r) \<Rightarrow> (error + 'r) option" where
  "sink_swim st position finish =
     (case sink st position of
        None \<Rightarrow> None
      | Some (Inl e) \<Rightarrow> Some (Inl e)
      | Some (Inr st1) \<Rightarrow>
          (case swim st1 position of
             Inl e \<Rightarrow> Some (Inl e)
           | Inr st2 \<Rightarrow> Some (Inr (finish st2))))"

definition updateKey ::
  "('a \<Rightarrow> bool) \<Rightarrow> 'a MinIndexedDHeap \<Rightarrow> key \<Rightarrow> 'a \<Rightarrow> (error + (bool \<times> 'a MinIndexedDHeap)) option" where
  "updateKey falsy st key v =
     (if \<not> contains st key then Some (Inr (False, st))
      else if slot_falsy falsy (vals st key) then Some (Inr (False, st))
      else
        let st1 = st\<lparr>vals := (vals st)(key := Val v)\<rparr>;
            position = the (pm st1 key)
        in sink_swim st1 position (\<lambda>st2. (True, st2)))"

definition decreaseKey ::
  "('a \<Rightarrow> bool) \<Rightarrow> 'a MinIndexedDHeap \<Rightarrow> key \<Rightarrow> 'a \<Rightarrow> (error + (bool \<times> 'a MinIndexedDHeap)) option" where
  "decreaseKey falsy st key newValue =
     (if \<not> contains st key then Some (Inr (False, st))
      else
        let oldValue = vals st key in
        if slot_falsy falsy oldValue then Some (Inr (False, st))
        else
          let st1 = st\<lparr>vals := (vals st)(key := Val newValue)\<rparr>;
              st2 = (if lessForValues st1 (Val newValue) oldValue
                     then st1\<lparr>vals := (vals st1)(key := Val newValue)\<rparr> else st1);
              position = the (pm st2 key)
          in sink_swim st2 position (\<lambda>st3. (True, st3)))"

definition increaseKey ::
  "('a \<Rightarrow> bool) \<Rightarrow> 'a MinIndexedDHeap \<Rightarrow> key \<Rightarrow> 'a \<Rightarrow> (error + (bool \<times> 'a MinIndexedDHeap)) option" where
  "increaseKey falsy st key newValue =
     (if \<not> contains st key then Some (Inr (False, st))
      else
        let oldValue = vals st key in
        if slot_falsy falsy oldValue then Some (Inr (False, st))
        else
          let st1 = st\<lparr>vals := (vals st)(key := Val newValue)\<rparr>;
              st2 = (if lessForValues st1 oldValue (Val newValue)
                     then st1\<lparr>vals := (vals st1)(key := Val newValue)\<rparr> else st1);
              position = the (pm st2 key)
          in sink_swim st2 position (\<lambda>st3. (True, st3)))"

definition deleteKey ::
  "'a MinIndexedDHeap \<Rightarrow> key \<Rightarrow> (error + ('a slot \<times> 'a MinIndexedDHeap)) option" where
  "deleteKey st key =
     (if \<not> contains st key then Some (Inr (Null, st))
      else
        let v = vals st key in
        if v = Null then Some (Inl Error)
        else
          let st1 = st\<lparr>vals := (vals st)(key := Null)\<rparr>;
              removedNodePosition = the (pm st1 key);
              lastNodePosition = size_h st1 - 1;
              st2 = swap st1 removedNodePosition lastNodePosition;
              st3 = heap_pop st2;
              st4 = st3\<lparr>sz := sz st3 - 1\<rparr>
          in sink_swim st4 removedNodePosition
               (\<lambda>st5. (v, st5\<lparr>pm := (pm st5)(key := Some (- 1))\<rparr>)))"

definition poll :: "'a MinIndexedDHeap \<Rightarrow> (error + ('a slot \<times> 'a MinIndexedDHeap)) option" where
  "poll st =
     (if isEmpty st then Some (Inr (Null, st))
      else
        let keyToBeRemoved = heap st 0
        in deleteKey st keyToBeRemoved)"


declare sink.simps [code]

subsection \<open>Sequences of calls\<close>

text \<open>
  A caller's sequence of mutating calls, with the keys the public methods are typed to
  take (numbers). \<open>run\<close> makes the calls from left to right and collects what they
  return; it stops at the first exception, and gives \<open>None\<close> if a call does not return.
\<close>

datatype 'a call =
    Add int 'a
  | UpdateKey int 'a
  | DecreaseKey int 'a
  | IncreaseKey int 'a
  | DeleteKey int
  | Poll

datatype 'a ret = Flag bool | Value "'a slot"

fun exec ::
  "('a \<Rightarrow> bool) \<Rightarrow> 'a MinIndexedDHeap \<Rightarrow> 'a call \<Rightarrow> (error + ('a ret \<times> 'a MinIndexedDHeap)) option" where
  "exec falsy st (Add key v) =
     (case add st (Some key) v of Inl e \<Rightarrow> Some (Inl e) | Inr (b, st') \<Rightarrow> Some (Inr (Flag b, st')))"
| "exec falsy st (UpdateKey key v) =
     (case updateKey falsy st (Some key) v of
        None \<Rightarrow> None | Some (Inl e) \<Rightarrow> Some (Inl e) | Some (Inr (b, st')) \<Rightarrow> Some (Inr (Flag b, st')))"
| "exec falsy st (DecreaseKey key v) =
     (case decreaseKey falsy st (Some key) v of
        None \<Rightarrow> None | Some (Inl e) \<Rightarrow> Some (Inl e) | Some (Inr (b, st')) \<Rightarrow> Some (Inr (Flag b, st')))"
| "exec falsy st (IncreaseKey key v) =
     (case increaseKey falsy st (Some key) v of
        None \<Rightarrow> None | Some (Inl e) \<Rightarrow> Some (Inl e) | Some (Inr (b, st')) \<Rightarrow> Some (Inr (Flag b, st')))"
| "exec falsy st (DeleteKey key) =
     (case deleteKey st (Some key) of
        None \<Rightarrow> None | Some (Inl e) \<Rightarrow> Some (Inl e) | Some (Inr (r, st')) \<Rightarrow> Some (Inr (Value r, st')))"
| "exec falsy st Poll =
     (case poll st of
        None \<Rightarrow> None | Some (Inl e) \<Rightarrow> Some (Inl e) | Some (Inr (r, st')) \<Rightarrow> Some (Inr (Value r, st')))"

fun run ::
  "('a \<Rightarrow> bool) \<Rightarrow> 'a MinIndexedDHeap \<Rightarrow> 'a call list \<Rightarrow> (error + ('a ret list \<times> 'a MinIndexedDHeap)) option" where
  "run falsy st [] = Some (Inr ([], st))"
| "run falsy st (c # cs) =
     (case exec falsy st c of
        None \<Rightarrow> None
      | Some (Inl e) \<Rightarrow> Some (Inl e)
      | Some (Inr (r, st')) \<Rightarrow>
          (case run falsy st' cs of
             None \<Rightarrow> None
           | Some (Inl e) \<Rightarrow> Some (Inl e)
           | Some (Inr (rs, st'')) \<Rightarrow> Some (Inr (r # rs, st''))))"

subsection \<open>What the specification asks of a state\<close>

text \<open>
  Follows the spec's words, not the code: the children of position \<open>p\<close> are the \<open>d\<close>
  positions \<open>p*d + 1, ..., p*d + d\<close>.
\<close>

definition children_spec :: "int \<Rightarrow> int \<Rightarrow> int list" where
  "children_spec degree p = map (\<lambda>i. p * degree + i) [1..degree]"

text \<open>
  The two invariants of the spec over the valid positions \<open>0, ..., size - 1\<close>: the
  position map inverts the heap array, and no valid child compares below its parent.
\<close>

definition pm_consistent :: "'a MinIndexedDHeap \<Rightarrow> bool" where
  "pm_consistent st = (\<forall>p \<in> set [0..sz st - 1]. pm st (heap st p) = Some p)"

definition heap_ordered :: "'a MinIndexedDHeap \<Rightarrow> bool" where
  "heap_ordered st =
     (\<forall>p \<in> set [0..sz st - 1]. \<forall>c \<in> set (children_spec (d st) p).
        c < sz st \<longrightarrow> compare st (vals st (heap st p)) (vals st (heap st c)) \<le> 0)"

subsection \<open>Well-formed states\<close>

text \<open>
  The comparator is also called on \<open>undefined\<close>, for positions past the end of the heap
  array. \<open>undef_not_less\<close> says that it never ranks \<open>undefined\<close> strictly below a
  value, as JavaScript's \<open><\<close> does not.
\<close>

definition undef_not_less :: "('a slot \<Rightarrow> 'a slot \<Rightarrow> int) \<Rightarrow> bool" where
  "undef_not_less cmp = (\<forall>v. \<not> cmp Undefined (Val v) < 0)"

text \<open>
  The representation invariant. Inside \<open>deleteKey\<close> the key being deleted, \<open>x\<close>, still
  has a position in \<open>pm\<close> while it is no longer in the heap array, so the clause on
  contained keys leaves \<open>x\<close> out; \<open>wf\<close> is the invariant between calls.
\<close>

definition inv_ex :: "key \<Rightarrow> 'a MinIndexedDHeap \<Rightarrow> bool" where
  "inv_ex x st =
     (2 \<le> d st \<and> 0 \<le> sz st \<and> heap_length st = sz st \<and>
      (\<forall>p. 0 \<le> p \<and> p < sz st \<longrightarrow>
           (\<exists>k v. heap st p = Some k \<and> pm st (Some k) = Some p \<and> vals st (Some k) = Val v)) \<and>
      (\<forall>p. p < 0 \<or> sz st \<le> p \<longrightarrow> heap st p = None) \<and>
      vals st None = Undefined \<and> pm st None = None \<and>
      (\<forall>k p. Some k \<noteq> x \<longrightarrow> pm st (Some k) = Some p \<longrightarrow> p \<noteq> - 1 \<longrightarrow>
           0 \<le> p \<and> p < sz st \<and> heap st p = Some k) \<and>
      undef_not_less (compare st))"

definition wf :: "'a MinIndexedDHeap \<Rightarrow> bool" where
  "wf st = inv_ex None st"


text \<open>
  The state after \<open>add(0, 5)\<close> on a fresh heap of degree 2 with the default comparator,
  written out; \<open>one_entry_built\<close> below shows that \<open>add\<close> produces it.
\<close>

definition one_entry :: "int MinIndexedDHeap" where
  "one_entry =
     \<lparr>d = 2, sz = 1, vals = (\<lambda>_. Undefined)(Some 0 := Val 5), heap = (\<lambda>_. None)(0 := Some 0),
      heap_length = 1, pm = (\<lambda>_. None)(Some 0 := Some 0), compare = defaultCompare\<rparr>"

text \<open>
  The state after \<open>add(0, 5)\<close> and \<open>poll()\<close> on the same fresh heap.
\<close>

definition emptied :: "int MinIndexedDHeap" where
  "emptied =
     \<lparr>d = 2, sz = 0, vals = (\<lambda>_. Undefined)(Some 0 := Null), heap = (\<lambda>_. None),
      heap_length = 0, pm = (\<lambda>_. None)(Some 0 := Some (- 1)), compare = defaultCompare\<rparr>"

text \<open>
  A caller's comparator for numbers, \<open>(a, b) => a > b ? 1 : a === b ? 0 : -1\<close>: the
  natural ascending order, with the tests made in another order than the default
  comparator makes them. An \<open>undefined\<close> operand falls through to \<open>-1\<close> unless both
  operands are \<open>undefined\<close>.
\<close>

definition greaterFirstCompare :: "int slot \<Rightarrow> int slot \<Rightarrow> int" where
  "greaterFirstCompare a b = (if js_less b a then 1 else if a = b then 0 else - 1)"

section \<open>Properties\<close>

lemma one_entry_built: "add (constructor 2 defaultCompare) (Some 0) 5 = Inr (True, one_entry)"
  apply (simp add: add_def contains_def constructor_def heap_push_def size_h_def Let_def)
  apply (subst swim.simps)
  apply (simp add: one_entry_def)
  done

subsection \<open>The representation invariant is kept\<close>

lemma swap_fields:
  "sz (swap st i j) = sz st"
  "d (swap st i j) = d st"
  "vals (swap st i j) = vals st"
  "compare (swap st i j) = compare st"
  "heap (swap st i j) = (heap st)(i := heap st j, j := heap st i)"
  "pm (swap st i j) = (pm st)(heap st i := Some j, heap st j := Some i)"
  "heap_length (swap st i j) =
     (if 0 \<le> j then max (if 0 \<le> i then max (heap_length st) (i + 1) else heap_length st) (j + 1)
      else (if 0 \<le> i then max (heap_length st) (i + 1) else heap_length st))"
  by (simp_all add: swap_def heap_set_def Let_def)

lemma swap_inv:
  assumes inv: "inv_ex x st" and i: "0 \<le> i" "i < sz st" and j: "0 \<le> j" "j < sz st"
  shows "inv_ex x (swap st i j)"
proof -
  from inv i obtain ki vi where ki: "heap st i = Some ki" "pm st (Some ki) = Some i" "vals st (Some ki) = Val vi"
    unfolding inv_ex_def by blast
  from inv j obtain kj vj where kj: "heap st j = Some kj" "pm st (Some kj) = Some j" "vals st (Some kj) = Val vj"
    unfolding inv_ex_def by blast
  have eq: "ki = kj \<longleftrightarrow> i = j" using ki kj by auto
  have c: "\<forall>p. 0 \<le> p \<and> p < sz st \<longrightarrow>
           (\<exists>k v. heap st p = Some k \<and> pm st (Some k) = Some p \<and> vals st (Some k) = Val v)"
    using inv unfolding inv_ex_def by blast
  have f: "\<forall>k p. Some k \<noteq> x \<longrightarrow> pm st (Some k) = Some p \<longrightarrow> p \<noteq> - 1 \<longrightarrow>
           0 \<le> p \<and> p < sz st \<and> heap st p = Some k"
    using inv unfolding inv_ex_def by blast
  have c': "\<forall>p. 0 \<le> p \<and> p < sz st \<longrightarrow>
           (\<exists>k v. heap (swap st i j) p = Some k \<and> pm (swap st i j) (Some k) = Some p \<and> vals st (Some k) = Val v)"
  proof (intro allI impI)
    fix p assume p: "0 \<le> p \<and> p < sz st"
    then obtain k v where k: "heap st p = Some k" "pm st (Some k) = Some p" "vals st (Some k) = Val v"
      using c by blast
    show "\<exists>k v. heap (swap st i j) p = Some k \<and> pm (swap st i j) (Some k) = Some p \<and> vals st (Some k) = Val v"
      using k ki kj eq by (auto simp: swap_fields)
  qed
  have f': "\<forall>k p. Some k \<noteq> x \<longrightarrow> pm (swap st i j) (Some k) = Some p \<longrightarrow> p \<noteq> - 1 \<longrightarrow>
           0 \<le> p \<and> p < sz st \<and> heap (swap st i j) p = Some k"
  proof (intro allI impI)
    fix k p assume a: "Some k \<noteq> x" "pm (swap st i j) (Some k) = Some p" "p \<noteq> - 1"
    show "0 \<le> p \<and> p < sz st \<and> heap (swap st i j) p = Some k"
    proof (cases "k = ki \<or> k = kj")
      case True
      then show ?thesis using a ki kj i j eq by (auto simp: swap_fields split: if_splits)
    next
      case False
      then have "pm st (Some k) = Some p" using a ki kj by (simp add: swap_fields)
      then have "0 \<le> p \<and> p < sz st \<and> heap st p = Some k" using f a by blast
      then show ?thesis using False ki kj by (auto simp: swap_fields)
    qed
  qed
  have rest: "2 \<le> d st \<and> 0 \<le> sz st \<and> heap_length st = sz st \<and>
      (\<forall>p. p < 0 \<or> sz st \<le> p \<longrightarrow> heap st p = None) \<and>
      vals st None = Undefined \<and> pm st None = None \<and> undef_not_less (compare st)"
    using inv unfolding inv_ex_def by blast
  show ?thesis
    unfolding inv_ex_def
    using rest c' f' i j ki kj by (simp add: swap_fields)
qed


lemma swap_contains:
  assumes inv: "inv_ex x st" and i: "0 \<le> i" "i < sz st" and j: "0 \<le> j" "j < sz st"
  shows "contains (swap st i j) key = contains st key"
proof -
  from inv i obtain ki vi where ki: "heap st i = Some ki" "pm st (Some ki) = Some i"
    unfolding inv_ex_def by blast
  from inv j obtain kj vj where kj: "heap st j = Some kj" "pm st (Some kj) = Some j"
    unfolding inv_ex_def by blast
  show ?thesis using ki kj i j by (auto simp: contains_def swap_fields)
qed

lemma inv_value_not_null:
  assumes inv: "inv_ex x st"
  shows "vals st (heap st p) \<noteq> Null"
proof (cases "0 \<le> p \<and> p < sz st")
  case True
  then obtain k v where "heap st p = Some k" "vals st (Some k) = Val v"
    using inv unfolding inv_ex_def by blast
  then show ?thesis by simp
next
  case False
  then have "heap st p = None" using inv unfolding inv_ex_def by auto
  moreover have "vals st None = Undefined" using inv unfolding inv_ex_def by blast
  ultimately show ?thesis by simp
qed

lemma inv_lessForPositions:
  assumes inv: "inv_ex x st"
  shows "lessForPositions st a b = Inr (compare st (vals st (heap st a)) (vals st (heap st b)) < 0)"
  using inv_value_not_null [OF inv] by (simp add: lessForPositions_def Let_def)

lemma parent_bounds:
  assumes "0 < k" "2 \<le> d st"
  shows "0 \<le> getParentPosition st k \<and> getParentPosition st k < k"
proof -
  have "0 \<le> (k - 1) div d st" using assms by (simp add: pos_imp_zdiv_nonneg_iff)
  moreover have "(k - 1) div d st < k"
  proof (cases "k = 1")
    case True
    then show ?thesis by simp
  next
    case False
    with assms have "0 < k - 1" by simp
    then have "(k - 1) div d st \<le> k - 1" by (rule int_div_le_self)
    then show ?thesis by simp
  qed
  ultimately show ?thesis by (simp add: getParentPosition_def)
qed

lemma swim_inv:
  "inv_ex x st \<Longrightarrow> 0 \<le> k \<Longrightarrow> k < sz st \<Longrightarrow>
   \<exists>st'. swim st k = Inr st' \<and> inv_ex x st' \<and> sz st' = sz st \<and> vals st' = vals st \<and>
         (\<forall>key. contains st' key = contains st key)"
proof (induction st k rule: swim.induct)
  case (1 st k)
  show ?case
  proof (cases "0 < k")
    case False
    then show ?thesis using "1.prems" by (subst swim.simps) simp
  next
    case True
    have d2: "2 \<le> d st" using "1.prems"(1) unfolding inv_ex_def by blast
    let ?p = "getParentPosition st k"
    have pb: "0 \<le> ?p \<and> ?p < k" using parent_bounds [OF True d2] .
    let ?lt = "compare st (vals st (heap st k)) (vals st (heap st ?p)) < 0"
    have less: "lessForPositions st k ?p = Inr ?lt"
      using inv_lessForPositions [OF "1.prems"(1)] .
    show ?thesis
    proof (cases ?lt)
      case False
      then show ?thesis using True less "1.prems" by (subst swim.simps) simp
    next
      case lt: True
      have inv': "inv_ex x (swap st k ?p)"
        using swap_inv [OF "1.prems"(1)] "1.prems" pb by simp
      have "\<exists>st'. swim (swap st k ?p) ?p = Inr st' \<and> inv_ex x st' \<and> sz st' = sz (swap st k ?p) \<and>
              vals st' = vals (swap st k ?p) \<and> (\<forall>key. contains st' key = contains (swap st k ?p) key)"
        using "1.IH" [OF True less lt inv'] pb "1.prems" by (simp add: swap_fields)
      then obtain st' where st': "swim (swap st k ?p) ?p = Inr st'" "inv_ex x st'" "sz st' = sz st"
          "vals st' = vals st" "\<forall>key. contains st' key = contains (swap st k ?p) key"
        by (auto simp: swap_fields)
      have "\<forall>key. contains st' key = contains st key"
        using st'(5) swap_contains [OF "1.prems"(1), of k ?p] "1.prems" pb by simp
      moreover have "swim st k = Inr st'"
        using True less lt st'(1) by (subst swim.simps) simp
      ultimately show ?thesis using st' by simp
    qed
  qed
qed

lemma swim_at_end:
  assumes inv: "inv_ex x st" and k: "k = sz st"
  shows "swim st k = Inr st"
proof (cases "0 < k")
  case False
  then show ?thesis by (subst swim.simps) simp
next
  case True
  have d2: "2 \<le> d st" using inv unfolding inv_ex_def by blast
  let ?p = "getParentPosition st k"
  have pb: "0 \<le> ?p \<and> ?p < k" using parent_bounds [OF True d2] .
  have hk: "heap st k = None" using inv k unfolding inv_ex_def by auto
  have vn: "vals st None = Undefined" using inv unfolding inv_ex_def by blast
  obtain kp vp where "heap st ?p = Some kp" "vals st (Some kp) = Val vp"
    using inv pb k unfolding inv_ex_def by blast
  moreover have "\<not> compare st Undefined (Val vp) < 0"
    using inv unfolding inv_ex_def undef_not_less_def by blast
  ultimately have "lessForPositions st k ?p = Inr False"
    using inv_lessForPositions [OF inv, of k ?p] hk vn by simp
  then show ?thesis using True by (subst swim.simps) simp
qed


lemma sink_for_same:
  "inv_ex x st \<Longrightarrow> \<forall>c \<in> set cs. c = s \<Longrightarrow> sink_for st cs s = Inr s"
proof (induction cs)
  case Nil
  then show ?case by simp
next
  case (Cons c cs)
  then show ?case by (simp add: inv_lessForPositions)
qed

lemma children_first:
  assumes "2 \<le> d st"
  shows "\<exists>rest. getChildrenPositions st k = (k * d st + 1) # rest \<and>
          (\<forall>c \<in> set (getChildrenPositions st k). c = k * d st + 1)"
proof -
  have "[1..d st] = 1 # [2..d st]" using assms by (simp add: upto_rec1)
  then show ?thesis by (auto simp: getChildrenPositions_def)
qed

lemma first_child_greater:
  assumes "0 \<le> k" "2 \<le> dd"
  shows "k < k * dd + (1::int)"
proof -
  have "k * 1 \<le> k * dd" using assms by (intro mult_left_mono) auto
  then show ?thesis by simp
qed

lemma sink_inv:
  "inv_ex x st \<Longrightarrow> 0 \<le> k \<Longrightarrow>
   \<exists>st'. sink st k = Some (Inr st') \<and> inv_ex x st' \<and> sz st' = sz st \<and> vals st' = vals st \<and>
         (\<forall>key. contains st' key = contains st key)"
proof (induction "nat (sz st - k)" arbitrary: st k rule: less_induct)
  case less
  have d2: "2 \<le> d st" using less.prems(1) unfolding inv_ex_def by blast
  let ?c = "k * d st + 1"
  obtain rest where ch: "getChildrenPositions st k = ?c # rest"
      "\<forall>c \<in> set (getChildrenPositions st k). c = ?c"
    using children_first [OF d2] by blast
  have sf: "sink_for st (getChildrenPositions st k) ?c = Inr ?c"
    using sink_for_same [OF less.prems(1) ch(2)] .
  let ?lt = "compare st (vals st (heap st k)) (vals st (heap st ?c)) < 0"
  have lp: "lessForPositions st k ?c = Inr ?lt"
    using inv_lessForPositions [OF less.prems(1)] .
  have gt: "k < ?c" using first_child_greater [OF less.prems(2) d2] .
  show ?case
  proof (cases "size_h st \<le> ?c \<or> ?lt")
    case True
    have "sink st k = Some (Inr st)"
      using ch(1) sf lp True by (subst sink.simps) auto
    then show ?thesis using less.prems by simp
  next
    case False
    then have cb: "?c < sz st" by (simp add: size_h_def)
    have kb: "k < sz st" using gt cb by simp
    have c0: "0 \<le> ?c" using gt less.prems(2) by simp
    have inv': "inv_ex x (swap st k ?c)"
      using swap_inv [OF less.prems(1) less.prems(2) kb c0 cb] .
    have m: "nat (sz (swap st k ?c) - ?c) < nat (sz st - k)"
      using gt cb by (simp add: swap_fields)
    obtain st' where st': "sink (swap st k ?c) ?c = Some (Inr st')" "inv_ex x st'"
        "sz st' = sz (swap st k ?c)" "vals st' = vals (swap st k ?c)"
        "\<forall>key. contains st' key = contains (swap st k ?c) key"
      using less.hyps [OF m inv' c0] by blast
    have "sink st k = Some (Inr st')"
      using ch(1) sf lp False st'(1) by (subst sink.simps) auto
    moreover have "\<forall>key. contains st' key = contains st key"
      using st'(5) swap_contains [OF less.prems(1) less.prems(2) kb c0 cb] by simp
    ultimately show ?thesis using st' by (simp add: swap_fields)
  qed
qed


lemma constructor_wf: "undef_not_less cmp \<Longrightarrow> wf (constructor degree cmp)"
  by (simp add: wf_def inv_ex_def constructor_def)

lemma wf_contained:
  assumes "wf st" "contains st (Some k)"
  shows "\<exists>p v. pm st (Some k) = Some p \<and> 0 \<le> p \<and> p < sz st \<and> heap st p = Some k \<and>
           vals st (Some k) = Val v"
proof -
  from assms(2) obtain p where p: "pm st (Some k) = Some p" "p \<noteq> - 1"
    by (auto simp: contains_def)
  then have b: "0 \<le> p \<and> p < sz st \<and> heap st p = Some k"
    using assms(1) unfolding wf_def inv_ex_def by blast
  then obtain k' v where "heap st p = Some k'" "vals st (Some k') = Val v"
    using assms(1) unfolding wf_def inv_ex_def by blast
  then show ?thesis using p b by auto
qed

lemma wf_heap_contained:
  assumes "wf st" "0 \<le> p" "p < sz st"
  shows "\<exists>k. heap st p = Some k \<and> contains st (Some k)"
proof -
  obtain k where "heap st p = Some k" "pm st (Some k) = Some p"
    using assms unfolding wf_def inv_ex_def by blast
  then show ?thesis using assms(2) by (auto simp: contains_def)
qed

lemma add_wf:
  assumes wf: "wf st" and nc: "\<not> contains st (Some k)"
  shows "\<exists>st'. add st (Some k) v = Inr (True, st') \<and> wf st' \<and> contains st' (Some k) \<and>
           vals st' (Some k) = Val v"
proof -
  let ?st4 = "st\<lparr>vals := (vals st)(Some k := Val v),
                 heap := (heap st)(heap_length st := Some k),
                 heap_length := heap_length st + 1,
                 sz := sz st + 1,
                 pm := (pm st)(Some k := Some (sz st))\<rparr>"
  have len: "heap_length st = sz st" "0 \<le> sz st" using wf unfolding wf_def inv_ex_def by auto
  have notin: "\<And>p. 0 \<le> p \<Longrightarrow> p < sz st \<Longrightarrow> heap st p \<noteq> Some k"
    using wf_heap_contained [OF wf] nc by fastforce
  have c: "\<forall>p. 0 \<le> p \<and> p < sz st \<longrightarrow>
           (\<exists>k v. heap st p = Some k \<and> pm st (Some k) = Some p \<and> vals st (Some k) = Val v)"
    using wf unfolding wf_def inv_ex_def by blast
  have f: "\<forall>k p. pm st (Some k) = Some p \<longrightarrow> p \<noteq> - 1 \<longrightarrow>
           0 \<le> p \<and> p < sz st \<and> heap st p = Some k"
    using wf unfolding wf_def inv_ex_def by blast
  have rest: "2 \<le> d st \<and> (\<forall>p. p < 0 \<or> sz st \<le> p \<longrightarrow> heap st p = None) \<and>
      vals st None = Undefined \<and> pm st None = None \<and> undef_not_less (compare st)"
    using wf unfolding wf_def inv_ex_def by blast
  have c': "\<forall>p. 0 \<le> p \<and> p < sz st + 1 \<longrightarrow>
           (\<exists>k' v'. heap ?st4 p = Some k' \<and> pm ?st4 (Some k') = Some p \<and> vals ?st4 (Some k') = Val v')"
  proof (intro allI impI)
    fix p assume p: "0 \<le> p \<and> p < sz st + 1"
    show "\<exists>k' v'. heap ?st4 p = Some k' \<and> pm ?st4 (Some k') = Some p \<and> vals ?st4 (Some k') = Val v'"
    proof (cases "p = sz st")
      case True
      then show ?thesis using len by simp
    next
      case False
      then have pb: "0 \<le> p" "p < sz st" using p by auto
      then obtain k' v' where "heap st p = Some k'" "pm st (Some k') = Some p" "vals st (Some k') = Val v'"
        using c by blast
      moreover have "k' \<noteq> k" using notin [OF pb] calculation(1) by auto
      ultimately show ?thesis using len False by simp
    qed
  qed
  have f': "\<forall>k' p. pm ?st4 (Some k') = Some p \<longrightarrow> p \<noteq> - 1 \<longrightarrow>
           0 \<le> p \<and> p < sz st + 1 \<and> heap ?st4 p = Some k'"
  proof (intro allI impI)
    fix k' p assume a: "pm ?st4 (Some k') = Some p" "p \<noteq> - 1"
    show "0 \<le> p \<and> p < sz st + 1 \<and> heap ?st4 p = Some k'"
    proof (cases "k' = k")
      case True
      then show ?thesis using a len by simp
    next
      case False
      then have "pm st (Some k') = Some p" using a by simp
      then have "0 \<le> p \<and> p < sz st \<and> heap st p = Some k'" using f a(2) by blast
      then show ?thesis using len by simp
    qed
  qed
  have inv4: "inv_ex None ?st4"
    unfolding inv_ex_def using rest len c' f' by simp
  obtain st' where st': "swim ?st4 (sz st) = Inr st'" "inv_ex None st'" "vals st' = vals ?st4"
      "\<forall>key. contains st' key = contains ?st4 key"
    using swim_inv [OF inv4, of "sz st"] len by auto
  have "add st (Some k) v = Inr (True, st')"
    using nc st'(1) by (simp add: add_def heap_push_def size_h_def Let_def)
  moreover have "contains ?st4 (Some k)" using len by (simp add: contains_def)
  ultimately show ?thesis using st' by (simp add: wf_def)
qed


lemma updateKey_wf:
  assumes wf: "wf st"
  shows "\<exists>b st'. updateKey falsy st (Some k) v = Some (Inr (b, st')) \<and> wf st'"
proof (cases "contains st (Some k) \<and> \<not> slot_falsy falsy (vals st (Some k))")
  case False
  then show ?thesis using wf by (auto simp: updateKey_def)
next
  case True
  then obtain p where p: "pm st (Some k) = Some p" "0 \<le> p" "p < sz st"
    using wf_contained [OF wf] by blast
  let ?st1 = "st\<lparr>vals := (vals st)(Some k := Val v)\<rparr>"
  have c: "\<forall>q. 0 \<le> q \<and> q < sz st \<longrightarrow>
           (\<exists>k v. heap st q = Some k \<and> pm st (Some k) = Some q \<and> vals st (Some k) = Val v)"
    using wf unfolding wf_def inv_ex_def by blast
  have c': "\<forall>q. 0 \<le> q \<and> q < sz st \<longrightarrow>
           (\<exists>k' v'. heap st q = Some k' \<and> pm st (Some k') = Some q \<and>
              ((vals st)(Some k := Val v)) (Some k') = Val v')"
  proof (intro allI impI)
    fix q assume "0 \<le> q \<and> q < sz st"
    then obtain k' v' where "heap st q = Some k'" "pm st (Some k') = Some q" "vals st (Some k') = Val v'"
      using c by blast
    then show "\<exists>k' v'. heap st q = Some k' \<and> pm st (Some k') = Some q \<and>
              ((vals st)(Some k := Val v)) (Some k') = Val v'"
      by (cases "k' = k") auto
  qed
  have rest: "2 \<le> d st \<and> 0 \<le> sz st \<and> heap_length st = sz st \<and>
      (\<forall>q. q < 0 \<or> sz st \<le> q \<longrightarrow> heap st q = None) \<and>
      vals st None = Undefined \<and> pm st None = None \<and>
      (\<forall>k q. Some k \<noteq> None \<longrightarrow> pm st (Some k) = Some q \<longrightarrow> q \<noteq> - 1 \<longrightarrow>
           0 \<le> q \<and> q < sz st \<and> heap st q = Some k) \<and>
      undef_not_less (compare st)"
    using wf unfolding wf_def inv_ex_def by blast
  have inv1: "inv_ex None ?st1"
    unfolding inv_ex_def using rest c' by simp
  obtain st2 where st2: "sink ?st1 p = Some (Inr st2)" "inv_ex None st2" "sz st2 = sz ?st1"
    using sink_inv [OF inv1 p(2)] by blast
  obtain st3 where st3: "swim st2 p = Inr st3" "inv_ex None st3"
    using swim_inv [OF st2(2) p(2)] st2(3) p(3) by auto
  have "updateKey falsy st (Some k) v = Some (Inr (True, st3))"
    using True p st2 st3 by (simp add: updateKey_def sink_swim_def Let_def)
  then show ?thesis using st3(2) by (auto simp: wf_def)
qed

lemma delete_prepare_inv:
  assumes wf: "wf st" and p: "pm st (Some k) = Some p" "0 \<le> p" "p < sz st" "heap st p = Some k"
  shows "inv_ex (Some k)
           (st\<lparr>vals := (vals st)(Some k := Null),
               pm := (pm st)(Some k := Some (sz st - 1), heap st (sz st - 1) := Some p),
               heap := (heap st)(p := heap st (sz st - 1), sz st - 1 := None),
               heap_length := sz st - 1,
               sz := sz st - 1\<rparr>)"
    (is "inv_ex _ ?st4")
proof -
  have c: "\<forall>q. 0 \<le> q \<and> q < sz st \<longrightarrow>
           (\<exists>k v. heap st q = Some k \<and> pm st (Some k) = Some q \<and> vals st (Some k) = Val v)"
    using wf unfolding wf_def inv_ex_def by blast
  have f: "\<forall>k q. pm st (Some k) = Some q \<longrightarrow> q \<noteq> - 1 \<longrightarrow>
           0 \<le> q \<and> q < sz st \<and> heap st q = Some k"
    using wf unfolding wf_def inv_ex_def by blast
  have rest: "2 \<le> d st \<and> (\<forall>q. q < 0 \<or> sz st \<le> q \<longrightarrow> heap st q = None) \<and>
      vals st None = Undefined \<and> pm st None = None \<and> undef_not_less (compare st)"
    using wf unfolding wf_def inv_ex_def by blast
  obtain kl vl where kl: "heap st (sz st - 1) = Some kl" "pm st (Some kl) = Some (sz st - 1)"
      "vals st (Some kl) = Val vl"
  proof -
    have "0 \<le> sz st - 1 \<and> sz st - 1 < sz st" using p by simp
    then show ?thesis using c that by blast
  qed
  have klk: "kl = k \<longleftrightarrow> p = sz st - 1" using kl p by auto
  have c': "\<forall>q. 0 \<le> q \<and> q < sz st - 1 \<longrightarrow>
           (\<exists>k' v'. heap ?st4 q = Some k' \<and> pm ?st4 (Some k') = Some q \<and> vals ?st4 (Some k') = Val v')"
  proof (intro allI impI)
    fix q assume q: "0 \<le> q \<and> q < sz st - 1"
    then obtain k' v' where k': "heap st q = Some k'" "pm st (Some k') = Some q" "vals st (Some k') = Val v'"
      using c by force
    show "\<exists>k' v'. heap ?st4 q = Some k' \<and> pm ?st4 (Some k') = Some q \<and> vals ?st4 (Some k') = Val v'"
    proof (cases "q = p")
      case True
      then show ?thesis using q kl klk by auto
    next
      case False
      then have "k' \<noteq> k" using k' p by auto
      moreover have "k' \<noteq> kl" using k' kl q by auto
      ultimately show ?thesis using k' kl q False by auto
    qed
  qed
  have d': "\<forall>q. q < 0 \<or> sz st - 1 \<le> q \<longrightarrow> heap ?st4 q = None"
    using rest p kl by auto
  have f': "\<forall>k' q. Some k' \<noteq> Some k \<longrightarrow> pm ?st4 (Some k') = Some q \<longrightarrow> q \<noteq> - 1 \<longrightarrow>
           0 \<le> q \<and> q < sz st - 1 \<and> heap ?st4 q = Some k'"
  proof (intro allI impI)
    fix k' q assume a: "Some k' \<noteq> Some k" "pm ?st4 (Some k') = Some q" "q \<noteq> - 1"
    show "0 \<le> q \<and> q < sz st - 1 \<and> heap ?st4 q = Some k'"
    proof (cases "k' = kl")
      case True
      then have "q = p" using a kl by simp
      moreover have "p \<noteq> sz st - 1" using True a klk by auto
      ultimately show ?thesis using p kl True by auto
    next
      case False
      then have "pm st (Some k') = Some q" using a kl by simp
      then have b: "0 \<le> q \<and> q < sz st \<and> heap st q = Some k'" using f a(3) by blast
      then have "q \<noteq> sz st - 1" "q \<noteq> p" using False kl a p by auto
      then show ?thesis using b by auto
    qed
  qed
  have pn: "pm ?st4 None = None" using rest kl by simp
  have "0 \<le> sz st - 1" using p by simp
  then show ?thesis
    unfolding inv_ex_def using rest c' d' f' pn by simp
qed

lemma delete_finish_wf:
  assumes inv: "inv_ex (Some k) st" and v: "vals st (Some k) = Null"
  shows "wf (st\<lparr>pm := (pm st)(Some k := Some (- 1))\<rparr>)"
proof -
  have c: "\<forall>q. 0 \<le> q \<and> q < sz st \<longrightarrow>
           (\<exists>k v. heap st q = Some k \<and> pm st (Some k) = Some q \<and> vals st (Some k) = Val v)"
    using inv unfolding inv_ex_def by blast
  have c': "\<forall>q. 0 \<le> q \<and> q < sz st \<longrightarrow>
           (\<exists>k' v'. heap st q = Some k' \<and> ((pm st)(Some k := Some (- 1))) (Some k') = Some q \<and>
              vals st (Some k') = Val v')"
  proof (intro allI impI)
    fix q assume "0 \<le> q \<and> q < sz st"
    then obtain k' v' where k': "heap st q = Some k'" "pm st (Some k') = Some q" "vals st (Some k') = Val v'"
      using c by blast
    then have "k' \<noteq> k" using v by auto
    then show "\<exists>k' v'. heap st q = Some k' \<and> ((pm st)(Some k := Some (- 1))) (Some k') = Some q \<and>
              vals st (Some k') = Val v'"
      using k' by auto
  qed
  have f: "\<forall>k' q. Some k' \<noteq> Some k \<longrightarrow> pm st (Some k') = Some q \<longrightarrow> q \<noteq> - 1 \<longrightarrow>
           0 \<le> q \<and> q < sz st \<and> heap st q = Some k'"
    using inv unfolding inv_ex_def by blast
  have rest: "2 \<le> d st \<and> 0 \<le> sz st \<and> heap_length st = sz st \<and>
      (\<forall>q. q < 0 \<or> sz st \<le> q \<longrightarrow> heap st q = None) \<and>
      vals st None = Undefined \<and> pm st None = None \<and> undef_not_less (compare st)"
    using inv unfolding inv_ex_def by blast
  show ?thesis
    unfolding wf_def inv_ex_def using rest c' f by simp
qed


lemma deleteKey_wf:
  assumes wf: "wf st"
  shows "\<exists>r st'. deleteKey st (Some k) = Some (Inr (r, st')) \<and> wf st'"
proof (cases "contains st (Some k)")
  case False
  then show ?thesis using wf by (auto simp: deleteKey_def)
next
  case True
  then obtain p v where p: "pm st (Some k) = Some p" "0 \<le> p" "p < sz st" "heap st p = Some k"
      and v: "vals st (Some k) = Val v"
    using wf_contained [OF wf] by blast
  have len: "heap_length st = sz st" using wf unfolding wf_def inv_ex_def by blast
  let ?st4 = "st\<lparr>vals := (vals st)(Some k := Null),
               pm := (pm st)(Some k := Some (sz st - 1), heap st (sz st - 1) := Some p),
               heap := (heap st)(p := heap st (sz st - 1), sz st - 1 := None),
               heap_length := sz st - 1,
               sz := sz st - 1\<rparr>"
  let ?st3 = "heap_pop (swap (st\<lparr>vals := (vals st)(Some k := Null)\<rparr>) p (sz st - 1))"
  have sz3: "sz ?st3 = sz st"
    by (simp add: heap_pop_def swap_fields)
  have "?st3\<lparr>sz := sz st - 1\<rparr> = ?st4"
    using p len by (simp add: swap_def heap_set_def heap_pop_def Let_def max_def)
  then have pre: "?st3\<lparr>sz := sz ?st3 - 1\<rparr> = ?st4"
    using sz3 by simp
  have inv4: "inv_ex (Some k) ?st4"
    using delete_prepare_inv [OF wf p] .
  obtain st5 where st5: "sink ?st4 p = Some (Inr st5)" "inv_ex (Some k) st5" "sz st5 = sz ?st4"
      "vals st5 = vals ?st4"
    using sink_inv [OF inv4 p(2)] by blast
  have "\<exists>st6. swim st5 p = Inr st6 \<and> inv_ex (Some k) st6 \<and> vals st6 = vals st5"
  proof (cases "p < sz st5")
    case True
    then show ?thesis using swim_inv [OF st5(2) p(2)] by blast
  next
    case False
    then have "p = sz st5" using st5(3) p(3) by simp
    then show ?thesis using swim_at_end [OF st5(2)] st5(2) by simp
  qed
  then obtain st6 where st6: "swim st5 p = Inr st6" "inv_ex (Some k) st6" "vals st6 = vals st5"
    by blast
  have "vals st6 (Some k) = Null" using st6(3) st5(4) by simp
  then have "wf (st6\<lparr>pm := (pm st6)(Some k := Some (- 1))\<rparr>)"
    using delete_finish_wf [OF st6(2)] by simp
  moreover have "deleteKey st (Some k) =
      Some (Inr (Val v, st6\<lparr>pm := (pm st6)(Some k := Some (- 1))\<rparr>))"
    using True v p(1) pre st5(1) st6(1)
    by (simp add: deleteKey_def sink_swim_def size_h_def Let_def)
  ultimately show ?thesis by blast
qed

lemma poll_wf:
  assumes wf: "wf st"
  shows "\<exists>r st'. poll st = Some (Inr (r, st')) \<and> wf st'"
proof (cases "sz st = 0")
  case True
  then show ?thesis using wf by (simp add: poll_def isEmpty_def size_h_def)
next
  case False
  moreover have "0 \<le> sz st" using wf unfolding wf_def inv_ex_def by blast
  ultimately obtain k where "heap st 0 = Some k"
    using wf_heap_contained [OF wf, of 0] by auto
  then show ?thesis
    using False deleteKey_wf [OF wf, of k] by (simp add: poll_def isEmpty_def size_h_def)
qed

lemma updateKey_variants:
  "decreaseKey falsy st key v = updateKey falsy st key v"
  "increaseKey falsy st key v = updateKey falsy st key v"
  by (simp_all add: decreaseKey_def increaseKey_def updateKey_def Let_def)

lemma exec_wf:
  assumes wf: "wf st"
  shows "\<exists>r st'. exec falsy st c = Some (Inr (r, st')) \<and> wf st'"
proof (cases c)
  case (Add k v)
  show ?thesis
  proof (cases "contains st (Some k)")
    case True
    then show ?thesis using Add wf by (simp add: add_def)
  next
    case False
    then show ?thesis using Add add_wf [OF wf False, of v] by auto
  qed
next
  case (UpdateKey k v)
  then show ?thesis using updateKey_wf [OF wf, of falsy k v] by auto
next
  case (DecreaseKey k v)
  then show ?thesis using updateKey_wf [OF wf, of falsy k v] by (auto simp: updateKey_variants)
next
  case (IncreaseKey k v)
  then show ?thesis using updateKey_wf [OF wf, of falsy k v] by (auto simp: updateKey_variants)
next
  case (DeleteKey k)
  then show ?thesis using deleteKey_wf [OF wf, of k] by auto
next
  case Poll
  then show ?thesis using poll_wf [OF wf] by auto
qed

lemma run_wf:
  "wf st \<Longrightarrow> \<exists>rs st'. run falsy st cs = Some (Inr (rs, st')) \<and> wf st'"
proof (induction cs arbitrary: st)
  case Nil
  then show ?case by simp
next
  case (Cons c cs)
  obtain r st1 where e: "exec falsy st c = Some (Inr (r, st1))" "wf st1"
    using exec_wf [OF Cons.prems] by blast
  obtain rs st2 where "run falsy st1 cs = Some (Inr (rs, st2))" "wf st2"
    using Cons.IH [OF e(2)] by blast
  then show ?case using e by simp
qed



subsection \<open>Two concrete states\<close>

lemma undef_not_less_defaultCompare: "undef_not_less defaultCompare"
  by (simp add: undef_not_less_def defaultCompare_def js_less_def)

lemma one_entry_wf: "wf one_entry"
proof -
  have "\<not> contains (constructor 2 defaultCompare) (Some 0)"
    by (simp add: contains_def constructor_def)
  then obtain st' where "add (constructor 2 defaultCompare) (Some 0) 5 = Inr (True, st')" "wf st'"
    using add_wf [OF constructor_wf [OF undef_not_less_defaultCompare]] by blast
  then show ?thesis by (simp add: one_entry_built)
qed

lemma emptied_built: "poll one_entry = Some (Inr (Val 5, emptied))"
  apply (simp add: poll_def isEmpty_def size_h_def deleteKey_def contains_def one_entry_def Let_def
      swap_def heap_set_def heap_pop_def sink_swim_def)
  apply (subst sink.simps)
  apply (simp add: getChildrenPositions_def upto_rec1 lessForPositions_def size_h_def
      defaultCompare_def js_less_def)
  apply (subst swim.simps)
  apply (simp add: emptied_def)
  done

lemma emptied_run:
  "run number_falsy (constructor 2 defaultCompare) [Add 0 5, Poll] =
     Some (Inr ([Flag True, Value (Val 5)], emptied))"
  by (simp add: one_entry_built emptied_built)

lemma run_reaches_wf:
  assumes "undef_not_less cmp" and "run falsy (constructor degree cmp) cs = Some (Inr (rs, st))"
  shows "wf st"
  using run_wf [OF constructor_wf [OF assms(1)], of falsy degree cs] assms(2) by auto

subsection \<open>Children and parent positions\<close>

text \<open>
  C2. The spec gives position \<open>p\<close> the \<open>d\<close> children \<open>p*d + 1, ..., p*d + d\<close>
  (\<open>children_spec\<close>). \<open>getChildrenPositions\<close> returns \<open>d\<close> copies of the first of
  them, \<open>p*d + 1\<close>: for degree 2 and position 0 it is \<open>[1, 1]\<close> where the spec has
  \<open>[1, 2]\<close>. The parent position is \<open>floor((p-1)/d)\<close> (\<open>div\<close> on integers rounds
  down).
\<close>

theorem getChildrenPositions_repeats_first_child:
  "getChildrenPositions st p = replicate (nat (d st)) (p * d st + 1) \<and>
   getChildrenPositions (constructor 2 cmp) 0 = [1, 1] \<and> children_spec 2 0 = [1, 2] \<and>
   getParentPosition st p = (p - 1) div d st"
proof -
  have "getChildrenPositions st p = replicate (nat (d st)) (p * d st + 1)"
    by (simp add: getChildrenPositions_def map_replicate_const)
  moreover have "getChildrenPositions (constructor 2 cmp) 0 = [1, 1]"
    by (simp add: getChildrenPositions_def constructor_def upto_rec1)
  moreover have "children_spec 2 0 = [1, 2]"
    by (simp add: children_spec_def upto_rec1)
  ultimately show ?thesis by (simp add: getParentPosition_def)
qed

subsection \<open>The update operations\<close>

text \<open>
  C3. \<open>updateKey\<close> tests the stored value for truthiness before it overwrites. After
  \<open>add(0, 0)\<close> the key 0 is contained with the value 0, and \<open>updateKey(0, 5)\<close>
  returns false and leaves the state as it was.
\<close>

theorem updateKey_rejects_falsy_value:
  "(case add (constructor 2 defaultCompare) (Some 0) 0 of
      Inl e \<Rightarrow> False
    | Inr (b, st) \<Rightarrow>
        b \<and> contains st (Some 0) \<and> valueOf st (Some 0) = Val 0 \<and>
        updateKey number_falsy st (Some 0) 5 = Some (Inr (False, st)))"
  apply (simp add: add_def contains_def constructor_def heap_push_def size_h_def Let_def)
  apply (subst swim.simps)
  apply (simp add: valueOf_def updateKey_def number_falsy_def contains_def)
  done

text \<open>
  C4. On every state, key and new value, \<open>decreaseKey\<close> and \<open>increaseKey\<close> give the
  same outcome (result and final state, or exception) as \<open>updateKey\<close>: the conditional
  assignment repeats the assignment already made. For a contained key whose stored value
  is truthy, each writes the new value and then runs \<open>sink\<close> and \<open>swim\<close> at the key's
  position, whatever the order of the old and the new value.
\<close>

theorem updateKey_variants_agree:
  "decreaseKey falsy st key v = updateKey falsy st key v \<and>
   increaseKey falsy st key v = updateKey falsy st key v \<and>
   (contains st key \<and> \<not> slot_falsy falsy (vals st key) \<longrightarrow>
      decreaseKey falsy st key v =
        sink_swim (st\<lparr>vals := (vals st)(key := Val v)\<rparr>) (the (pm st key)) (\<lambda>st'. (True, st')) \<and>
      increaseKey falsy st key v =
        sink_swim (st\<lparr>vals := (vals st)(key := Val v)\<rparr>) (the (pm st key)) (\<lambda>st'. (True, st')))"
  by (simp add: decreaseKey_def increaseKey_def updateKey_def Let_def)

theorem updateKey_variants_agree_witness:
  "contains one_entry (Some 0) \<and> \<not> slot_falsy number_falsy (vals one_entry (Some 0)) \<and>
   decreaseKey number_falsy one_entry (Some 0) 9 = updateKey number_falsy one_entry (Some 0) 9 \<and>
   increaseKey number_falsy one_entry (Some 0) 2 = updateKey number_falsy one_entry (Some 0) 2 \<and>
   decreaseKey number_falsy one_entry (Some 0) 9 =
     sink_swim (one_entry\<lparr>vals := (vals one_entry)(Some 0 := Val 9)\<rparr>) (the (pm one_entry (Some 0)))
       (\<lambda>st'. (True, st'))"
proof -
  have h: "contains one_entry (Some 0) \<and> \<not> slot_falsy number_falsy (vals one_entry (Some 0))"
    by (simp add: contains_def one_entry_def number_falsy_def)
  show ?thesis
    using h updateKey_variants_agree [of number_falsy one_entry "Some 0" 9]
      updateKey_variants_agree [of number_falsy one_entry "Some 0" 2]
    by blast
qed

subsection \<open>Deletion\<close>

text \<open>
  C5. When the size is not 0, \<open>poll\<close> is \<open>deleteKey\<close> of the key stored at position 0:
  the same returned value, the same final state, the same exception if any. When the
  size is 0 it returns \<open>null\<close> and leaves the state unchanged.
\<close>

theorem poll_is_deleteKey_of_root:
  "(sz st \<noteq> 0 \<longrightarrow> poll st = deleteKey st (heap st 0)) \<and>
   (sz st = 0 \<longrightarrow> poll st = Some (Inr (Null, st)))"
  by (simp add: poll_def isEmpty_def size_h_def)

theorem poll_is_deleteKey_of_root_witness:
  "sz one_entry \<noteq> 0 \<and> poll one_entry = deleteKey one_entry (heap one_entry 0) \<and>
   sz (constructor 2 defaultCompare) = 0 \<and>
   poll (constructor 2 defaultCompare) = Some (Inr (Null, constructor 2 defaultCompare))"
  using poll_is_deleteKey_of_root [of one_entry]
    poll_is_deleteKey_of_root [of "constructor 2 defaultCompare"]
  by (simp add: one_entry_def constructor_def)

subsection \<open>Keys that are not contained\<close>

text \<open>
  C9. For a key that is not contained, \<open>updateKey\<close>, \<open>decreaseKey\<close> and
  \<open>increaseKey\<close> return false, \<open>deleteKey\<close> and \<open>valueOf\<close> return \<open>null\<close>; none
  raises, and the state is unchanged.
\<close>

theorem not_contained_is_noop:
  "\<not> contains st key \<Longrightarrow>
     updateKey falsy st key v = Some (Inr (False, st)) \<and>
     decreaseKey falsy st key v = Some (Inr (False, st)) \<and>
     increaseKey falsy st key v = Some (Inr (False, st)) \<and>
     deleteKey st key = Some (Inr (Null, st)) \<and>
     valueOf st key = Null"
  by (simp add: updateKey_def decreaseKey_def increaseKey_def deleteKey_def valueOf_def)

theorem not_contained_is_noop_witness:
  "\<not> contains one_entry (Some 7) \<and>
   updateKey number_falsy one_entry (Some 7) 4 = Some (Inr (False, one_entry)) \<and>
   decreaseKey number_falsy one_entry (Some 7) 4 = Some (Inr (False, one_entry)) \<and>
   increaseKey number_falsy one_entry (Some 7) 4 = Some (Inr (False, one_entry)) \<and>
   deleteKey one_entry (Some 7) = Some (Inr (Null, one_entry)) \<and>
   valueOf one_entry (Some 7) = Null"
proof -
  have h: "\<not> contains one_entry (Some 7)"
    by (simp add: contains_def one_entry_def)
  show ?thesis
    using h not_contained_is_noop [OF h, of number_falsy 4] by simp
qed

subsection \<open>Heap order and extraction order\<close>

text \<open>
  C1. The heap order is lost by a \<open>poll\<close>. On a heap of degree 2 with the default
  comparator, after \<open>add(0,1)\<close>, \<open>add(1,3)\<close>, \<open>add(2,2)\<close>, \<open>add(3,4)\<close> and one
  \<open>poll\<close>, the size is 3, position 2 is a child of position 0 by the spec's formula,
  position 0 holds the value 3 and position 2 the value 2, and the comparator gives 1 on
  them. Polling on returns the values in the order 1, 3, 2, 4.
\<close>

theorem order_broken_after_poll:
  "(case run number_falsy (constructor 2 defaultCompare) [Add 0 1, Add 1 3, Add 2 2, Add 3 4, Poll] of
      Some (Inr (rets, st)) \<Rightarrow>
        rets = [Flag True, Flag True, Flag True, Flag True, Value (Val 1)] \<and>
        sz st = 3 \<and> children_spec (d st) 0 = [1, 2] \<and>
        vals st (heap st 0) = Val 3 \<and> vals st (heap st 2) = Val 2 \<and>
        compare st (vals st (heap st 0)) (vals st (heap st 2)) = 1
    | _ \<Rightarrow> False) \<and>
   (case run number_falsy (constructor 2 defaultCompare)
           [Add 0 1, Add 1 3, Add 2 2, Add 3 4, Poll, Poll, Poll, Poll] of
      Some (Inr (rets, st)) \<Rightarrow>
        drop 4 rets = [Value (Val 1), Value (Val 3), Value (Val 2), Value (Val 4)]
    | _ \<Rightarrow> False)"
  by code_simp

text \<open>
  In the same state the heap order of the spec fails while the position map still inverts
  the heap array; the latter holds in every state reached from the constructor when the
  comparator never ranks \<open>undefined\<close> below a value.
\<close>

lemma heap_order_lost_pm_kept:
  "(case run number_falsy (constructor 2 defaultCompare) [Add 0 1, Add 1 3, Add 2 2, Add 3 4, Poll] of
      Some (Inr (rets, st)) \<Rightarrow> \<not> heap_ordered st \<and> pm_consistent st
    | _ \<Rightarrow> False)"
  by code_simp

lemma pm_consistent_on_reachable_state:
  assumes "undef_not_less cmp" and "run falsy (constructor degree cmp) cs = Some (Inr (rs, st))"
  shows "pm_consistent st"
proof -
  have w: "wf st" using run_reaches_wf [OF assms] .
  have c: "\<forall>p. 0 \<le> p \<and> p < sz st \<longrightarrow>
           (\<exists>k v. heap st p = Some k \<and> pm st (Some k) = Some p \<and> vals st (Some k) = Val v)"
    using w unfolding wf_def inv_ex_def by blast
  have "pm st (heap st p) = Some p" if "p \<in> set [0..sz st - 1]" for p
  proof -
    have "0 \<le> p \<and> p < sz st" using that by simp
    then obtain k where "heap st p = Some k" "pm st (Some k) = Some p"
      using c by blast
    then show ?thesis by simp
  qed
  then show ?thesis unfolding pm_consistent_def by blast
qed

text \<open>
  C8. On a heap of degree 3 with the default comparator, after \<open>add(0,5)\<close>,
  \<open>add(1,3)\<close>, \<open>add(2,8)\<close>, \<open>add(3,1)\<close>, \<open>add(4,9)\<close>, five \<open>poll\<close> calls return
  1, 5, 3, 8, 9: after the first \<open>poll\<close> the root holds key 0 (value 5) while key 1
  (value 3) is still in the heap.
\<close>

theorem extraction_order_degree_3:
  "(case run number_falsy (constructor 3 defaultCompare)
           [Add 0 5, Add 1 3, Add 2 8, Add 3 1, Add 4 9, Poll, Poll, Poll, Poll, Poll] of
      Some (Inr (rets, st)) \<Rightarrow>
        drop 5 rets = [Value (Val 1), Value (Val 5), Value (Val 3), Value (Val 8), Value (Val 9)]
    | _ \<Rightarrow> False) \<and>
   (case run number_falsy (constructor 3 defaultCompare)
           [Add 0 5, Add 1 3, Add 2 8, Add 3 1, Add 4 9, Poll] of
      Some (Inr (rets, st)) \<Rightarrow>
        heap st 0 = Some 0 \<and> map (\<lambda>k. vals st (Some k)) [1, 0] = [Val 3, Val 5]
    | _ \<Rightarrow> False)"
  by code_simp

text \<open>With degree 2 the same calls do return 1, 3, 5, 8, 9.\<close>

lemma extraction_order_degree_2:
  "(case run number_falsy (constructor 2 defaultCompare)
           [Add 0 5, Add 1 3, Add 2 8, Add 3 1, Add 4 9, Poll, Poll, Poll, Poll, Poll] of
      Some (Inr (rets, st)) \<Rightarrow>
        drop 5 rets = [Value (Val 1), Value (Val 3), Value (Val 5), Value (Val 8), Value (Val 9)]
    | _ \<Rightarrow> False)"
  by code_simp


subsection \<open>Comparisons against missing values\<close>

text \<open>
  C6, as stated, fails: in the heap with the single key 0, position 1 is out of bounds and
  resolves to \<open>undefined\<close>, yet comparing positions 0 and 1, or 1 and 1, raises nothing
  and returns the comparator's verdict on \<open>undefined\<close>; \<open>sink\<close> at position 0 makes
  both comparisons and returns normally.
\<close>

theorem undefined_operand_is_compared:
  "sz one_entry \<le> 1 \<and> heap one_entry 1 = None \<and> vals one_entry (heap one_entry 1) = Undefined \<and>
   lessForPositions one_entry 0 1 = Inr (defaultCompare (Val 5) Undefined < 0) \<and>
   lessForPositions one_entry 1 1 = Inr (defaultCompare Undefined Undefined < 0) \<and>
   sink one_entry 0 = Some (Inr one_entry)"
  apply (subst sink.simps)
  apply (simp add: one_entry_def lessForPositions_def getChildrenPositions_def upto_rec1 size_h_def)
  done

text \<open>
  Without the invariant, \<open>sink\<close> at a position whose first child is out of bounds makes
  its comparisons all the same: it raises when that child position or the position
  itself resolves to \<open>null\<close>, and otherwise returns the state as it is.
\<close>

lemma sink_for_not_null:
  "vals st (heap st s) \<noteq> Null \<Longrightarrow> \<forall>c \<in> set cs. c = s \<Longrightarrow> sink_for st cs s = Inr s"
  by (induction cs) (simp_all add: lessForPositions_def Let_def)

lemma sink_for_null:
  "vals st (heap st s) = Null \<Longrightarrow> sink_for st (s # cs) s = Inl VALUE_DOES_NOT_EXIST_ERROR"
  by (simp add: lessForPositions_def Let_def)

lemma sink_at_leaf:
  assumes d2: "2 \<le> d st" and oob: "sz st \<le> k * d st + 1"
  shows "sink st k =
           (if vals st (heap st (k * d st + 1)) = Null \<or> vals st (heap st k) = Null
            then Some (Inl VALUE_DOES_NOT_EXIST_ERROR) else Some (Inr st))"
proof -
  let ?c = "k * d st + 1"
  obtain rest where ch: "getChildrenPositions st k = ?c # rest"
      "\<forall>c \<in> set (getChildrenPositions st k). c = ?c"
    using children_first [OF d2] by blast
  show ?thesis
  proof (cases "vals st (heap st ?c) = Null")
    case True
    have "sink_for st (getChildrenPositions st k) ?c = Inl VALUE_DOES_NOT_EXIST_ERROR"
      using sink_for_null [OF True] ch(1) by simp
    then show ?thesis using ch(1) True by (subst sink.simps) simp
  next
    case False
    have sf: "sink_for st (getChildrenPositions st k) ?c = Inr ?c"
      using sink_for_not_null [OF False ch(2)] .
    show ?thesis
      using ch(1) sf False oob
      by (subst sink.simps) (simp add: lessForPositions_def Let_def size_h_def)
  qed
qed

text \<open>
  An out-of-bounds position need not resolve to \<open>undefined\<close>: with the comparator
  \<open>(a, b) => a > b ? 1 : a === b ? 0 : -1\<close>, after \<open>add(0,1)\<close>, \<open>add(1,1)\<close>,
  \<open>add(2,1)\<close>, \<open>deleteKey(2)\<close>, \<open>deleteKey(0)\<close> the size is 1 and position 1 still
  holds the deleted key 0, whose value is \<open>null\<close>; comparing positions 0 and 1 raises,
  and so does \<open>sink\<close> at position 0.
\<close>

lemma out_of_bounds_can_resolve_to_null:
  "(case run number_falsy (constructor 2 greaterFirstCompare)
           [Add 0 1, Add 1 1, Add 2 1, DeleteKey 2, DeleteKey 0] of
      Some (Inr (rets, st)) \<Rightarrow>
        sz st = 1 \<and> heap st 1 = Some 0 \<and> vals st (heap st 1) = Null \<and>
        (case lessForPositions st 0 1 of Inl e \<Rightarrow> e = VALUE_DOES_NOT_EXIST_ERROR | Inr r \<Rightarrow> False) \<and>
        (case sink st 0 of Some (Inl e) \<Rightarrow> e = VALUE_DOES_NOT_EXIST_ERROR | _ \<Rightarrow> False)
    | _ \<Rightarrow> False)"
  by code_simp

text \<open>
  C6, amended. On every state, a comparison between two positions raises exactly when one
  of them resolves to \<open>null\<close>, the marker \<open>deleteKey\<close> writes, so the comparator is
  never applied to that marker. An operand that resolves to \<open>undefined\<close> is not guarded:
  when neither operand resolves to \<open>null\<close>, the comparator is applied to the two resolved
  values, \<open>undefined\<close> included, and its verdict is returned. Positions are not tested
  against the size before they are compared: when the first child position of \<open>k\<close> is
  out of bounds, \<open>sink\<close> (with a degree of at least 2) compares it all the same, raises
  exactly when that position or position \<open>k\<close> resolves to \<open>null\<close>, and otherwise
  returns with the heap unchanged.
\<close>

theorem lessForPositions_guards_null_only:
  "(lessForPositions st a b = Inl VALUE_DOES_NOT_EXIST_ERROR) =
     (vals st (heap st a) = Null \<or> vals st (heap st b) = Null) \<and>
   (vals st (heap st a) \<noteq> Null \<and> vals st (heap st b) \<noteq> Null \<longrightarrow>
      lessForPositions st a b = Inr (compare st (vals st (heap st a)) (vals st (heap st b)) < 0)) \<and>
   (vals st (heap st a) \<noteq> Null \<and> vals st (heap st b) = Undefined \<longrightarrow>
      lessForPositions st a b = Inr (compare st (vals st (heap st a)) Undefined < 0)) \<and>
   (2 \<le> d st \<and> sz st \<le> k * d st + 1 \<longrightarrow>
      sink st k =
        (if vals st (heap st (k * d st + 1)) = Null \<or> vals st (heap st k) = Null
         then Some (Inl VALUE_DOES_NOT_EXIST_ERROR) else Some (Inr st)))"
  using sink_at_leaf [of st k] by (auto simp: lessForPositions_def Let_def)

theorem lessForPositions_guards_null_only_witness:
  "lessForPositions (one_entry\<lparr>vals := (vals one_entry)(Some 0 := Null)\<rparr>) 0 1 =
     Inl VALUE_DOES_NOT_EXIST_ERROR \<and>
   vals one_entry (heap one_entry 0) \<noteq> Null \<and> vals one_entry (heap one_entry 1) = Undefined \<and>
   lessForPositions one_entry 0 1 =
     Inr (compare one_entry (vals one_entry (heap one_entry 0)) Undefined < 0) \<and>
   2 \<le> d one_entry \<and> sz one_entry \<le> 0 * d one_entry + 1 \<and>
   sink one_entry 0 = Some (Inr one_entry)"
proof -
  have h: "vals one_entry (heap one_entry 0) \<noteq> Null \<and> vals one_entry (heap one_entry 1) = Undefined \<and>
           2 \<le> d one_entry \<and> sz one_entry \<le> 0 * d one_entry + 1"
    by (simp add: one_entry_def)
  have n: "vals (one_entry\<lparr>vals := (vals one_entry)(Some 0 := Null)\<rparr>)
               (heap (one_entry\<lparr>vals := (vals one_entry)(Some 0 := Null)\<rparr>) 0) = Null"
    by (simp add: one_entry_def)
  show ?thesis
    using h n lessForPositions_guards_null_only [of one_entry 0 1 0]
      lessForPositions_guards_null_only
        [of "one_entry\<lparr>vals := (vals one_entry)(Some 0 := Null)\<rparr>" 0 1 0]
    by auto
qed

subsection \<open>Adding a key\<close>

text \<open>
  In a state reached from the constructor, with a comparator that never ranks
  \<open>undefined\<close> below a value, \<open>add\<close> on a contained key returns false and changes
  nothing, and \<open>add\<close> on a key that is not contained returns true, after which the key
  holds the value given and a second \<open>add\<close> changes nothing.
\<close>

lemma add_on_reachable_state:
  assumes "undef_not_less cmp" and "run falsy (constructor degree cmp) cs = Some (Inr (rs, st))"
  shows "(contains st (Some k) \<longrightarrow> add st (Some k) v = Inr (False, st)) \<and>
         (\<not> contains st (Some k) \<longrightarrow>
            (\<exists>st'. add st (Some k) v = Inr (True, st') \<and> valueOf st' (Some k) = Val v \<and>
                   (\<forall>v2. add st' (Some k) v2 = Inr (False, st'))))"
proof -
  have w: "wf st" using run_reaches_wf [OF assms] .
  have "\<not> contains st (Some k) \<Longrightarrow>
          \<exists>st'. add st (Some k) v = Inr (True, st') \<and> valueOf st' (Some k) = Val v \<and>
                (\<forall>v2. add st' (Some k) v2 = Inr (False, st'))"
  proof -
    assume "\<not> contains st (Some k)"
    then obtain st' where "add st (Some k) v = Inr (True, st')" "contains st' (Some k)"
        "vals st' (Some k) = Val v"
      using add_wf [OF w] by blast
    then show ?thesis by (auto simp: valueOf_def add_def)
  qed
  then show ?thesis by (auto simp: add_def)
qed

text \<open>
  C7. With the comparator \<open>(a, b) => a > b ? 1 : a === b ? 0 : -1\<close> on a heap of degree 2,
  after \<open>add(0,1)\<close>, \<open>add(1,1)\<close>, \<open>add(2,1)\<close>, \<open>deleteKey(2)\<close>, \<open>deleteKey(0)\<close>,
  which return true, true, true, 1 and 1, the key 2 is not contained and \<open>add(2, 1)\<close>
  raises \<open>VALUE_DOES_NOT_EXIST_ERROR\<close>.
\<close>

theorem add_raises_on_fresh_key:
  "(case run number_falsy (constructor 2 greaterFirstCompare)
           [Add 0 1, Add 1 1, Add 2 1, DeleteKey 2, DeleteKey 0] of
      Some (Inr (rets, st)) \<Rightarrow>
        rets = [Flag True, Flag True, Flag True, Value (Val 1), Value (Val 1)] \<and>
        \<not> contains st (Some 2) \<and>
        (case add st (Some 2) 1 of Inl e \<Rightarrow> e = VALUE_DOES_NOT_EXIST_ERROR | Inr r \<Rightarrow> False)
    | _ \<Rightarrow> False)"
  by code_simp

subsection \<open>The empty heap\<close>

text \<open>
  In every state of size 0, whatever the comparator, \<open>peek\<close> and \<open>poll\<close> return
  \<open>null\<close> without raising (\<open>poll\<close> leaving the state as it is), \<open>isEmpty\<close> is true and
  \<open>size\<close> is 0.
\<close>

lemma empty_heap_queries:
  "sz st = 0 \<Longrightarrow>
     peek st = Null \<and> poll st = Some (Inr (Null, st)) \<and> isEmpty st \<and> size_h st = 0"
  by (simp add: peek_def poll_def isEmpty_def size_h_def)

text \<open>
  \<open>valueOf\<close> never raises; it returns \<open>null\<close> for a key that is not contained. In a
  state of size 0 reached from the constructor by a sequence of calls, with a comparator
  that never ranks \<open>undefined\<close> below a value, no key is contained and \<open>valueOf\<close>
  returns \<open>null\<close> for every key.
\<close>

lemma empty_heap_valueOf:
  assumes "sz st = 0" "undef_not_less cmp"
    "run falsy (constructor degree cmp) cs = Some (Inr (rs, st))"
  shows "valueOf st key = Null"
proof -
  have w: "wf st" using run_reaches_wf [OF assms(2,3)] .
  have "\<not> contains st key"
  proof (cases key)
    case None
    then show ?thesis using w by (simp add: contains_def wf_def inv_ex_def)
  next
    case (Some k)
    then show ?thesis using wf_contained [OF w, of k] assms(1) by auto
  qed
  then show ?thesis by (simp add: valueOf_def)
qed

end
